theory Spec2Isabelle
  imports Complex_Main "HOL-Library.Word"
begin

section \<open>Text\<close>

text \<open>
  A Python \<open>str\<close> is a sequence of Unicode code points; it is modelled as a list of
  natural numbers, one per code point, so that \<open>len\<close> is \<open>length\<close> and a slice
  \<open>s[:n]\<close> is \<open>take n s\<close>. \<open>ustr\<close> turns an ASCII literal into such a list.
\<close>

type_synonym ustr = "nat list"

definition ustr :: "string \<Rightarrow> ustr" where
  "ustr s = map of_char s"

text \<open>
  The white space of \<open>str.split()\<close>, \<open>str.strip()\<close> and of \<open>\s\<close> in a \<open>str\<close> pattern:
  U+0009..U+000D, U+001C..U+0020, U+0085, U+00A0, U+1680, U+2000..U+200A, U+2028,
  U+2029, U+202F, U+205F and U+3000.
\<close>

definition isspace :: "nat \<Rightarrow> bool" where
  "isspace c \<longleftrightarrow>
     (9 \<le> c \<and> c \<le> 13) \<or> (28 \<le> c \<and> c \<le> 32) \<or> c = 133 \<or> c = 160 \<or> c = 5760 \<or>
     (8192 \<le> c \<and> c \<le> 8202) \<or> c = 8232 \<or> c = 8233 \<or> c = 8239 \<or> c = 8287 \<or> c = 12288"

text \<open>\<open>s.strip()\<close>: white space removed at both ends.\<close>

definition str_strip :: "ustr \<Rightarrow> ustr" where
  "str_strip s = rev (dropWhile isspace (rev (dropWhile isspace s)))"

text \<open>\<open>s.endswith(suffix)\<close>.\<close>

definition endswith :: "ustr \<Rightarrow> ustr \<Rightarrow> bool" where
  "endswith s suffix \<longleftrightarrow>
     length suffix \<le> length s \<and> drop (length s - length suffix) s = suffix"

text \<open>\<open>" ".join(parts)\<close>.\<close>

fun join_space :: "ustr list \<Rightarrow> ustr" where
  "join_space [] = []"
| "join_space [p] = p"
| "join_space (p # q # ps) = p @ [32] @ join_space (q # ps)"

text \<open>
  \<open>s.split()\<close>: the maximal runs of characters that are not white space, in order; never
  an empty string.
\<close>

function str_split :: "ustr \<Rightarrow> ustr list" where
  "str_split s =
     (let s' = dropWhile isspace s
      in if s' = [] then []
         else takeWhile (\<lambda>c. \<not> isspace c) s' # str_split (dropWhile (\<lambda>c. \<not> isspace c) s'))"
  by pat_completeness auto
termination
proof (relation "measure length")
  fix s s' :: ustr
  assume s': "s' = dropWhile isspace s" and ne: "s' \<noteq> []"
  from ne have "\<not> isspace (hd s')"
    unfolding s' by (rule hd_dropWhile)
  with ne have "length (dropWhile (\<lambda>c. \<not> isspace c) s') < length s'"
    by (cases s') (auto simp: length_dropWhile_le le_imp_less_Suc)
  also have "length s' \<le> length s"
    unfolding s' by (rule length_dropWhile_le)
  finally show "(dropWhile (\<lambda>c. \<not> isspace c) s', s) \<in> measure length"
    by simp
qed simp

declare str_split.simps [simp del]

section \<open>Clause extraction\<close>

text \<open>
  \<open>re.sub(r"\n{2,}", "\n\n", text)\<close>: scanning from the left, every maximal run of two
  or more newlines (code point 10) is replaced by exactly two; every other character is
  copied.
\<close>

function re_sub_newlines :: "ustr \<Rightarrow> ustr" where
  "re_sub_newlines [] = []"
| "re_sub_newlines (c # cs) =
     (if c = 10 \<and> cs \<noteq> [] \<and> hd cs = 10
      then 10 # 10 # re_sub_newlines (dropWhile (\<lambda>x. x = 10) cs)
      else c # re_sub_newlines cs)"
  by pat_completeness auto
termination
  by (relation "measure length") (auto simp: length_dropWhile_le le_imp_less_Suc)

text \<open>
  The pattern \<open>\n\s*\n\<close> tried at the head of a string: the length of the match, if there
  is one. The greedy \<open>\s*\<close> takes the whole run of white space after the first newline
  and gives characters back until the last newline of that run.
\<close>

definition blank_match :: "ustr \<Rightarrow> nat option" where
  "blank_match s =
     (case s of
        [] \<Rightarrow> None
      | c # cs \<Rightarrow>
          if c \<noteq> 10 then None
          else let run = takeWhile isspace cs;
                   given_back = takeWhile (\<lambda>x. x \<noteq> 10) (rev run)
               in if 10 \<in> set run then Some (Suc (length run - length given_back))
                  else None)"

lemma blank_match_pos: "blank_match s = Some n \<Longrightarrow> 0 < n"
  by (auto simp: blank_match_def Let_def split: list.splits if_splits)

text \<open>
  \<open>re.split(r"\n\s*\n", text)\<close>: the pieces between the leftmost non-overlapping matches;
  \<open>cur\<close> is the piece read so far.
\<close>

function re_split_blank :: "ustr \<Rightarrow> ustr \<Rightarrow> ustr list" where
  "re_split_blank cur [] = [cur]"
| "re_split_blank cur (c # cs) =
     (case blank_match (c # cs) of
        Some n \<Rightarrow> cur # re_split_blank [] (drop n (c # cs))
      | None \<Rightarrow> re_split_blank (cur @ [c]) cs)"
  by pat_completeness auto
termination
  by (relation "measure (\<lambda>(cur, s). length s)") (auto dest: blank_match_pos)

text \<open>
  Line 98 of the source: the stripped pieces that are not empty.
\<close>

definition paragraphs :: "ustr \<Rightarrow> ustr list" where
  "paragraphs text = [str_strip p. p \<leftarrow> re_split_blank [] text, str_strip p \<noteq> []]"

text \<open>
  The loop of \<open>extract_clauses\<close>: a paragraph longer than 40 is appended, and the bound is
  tested after every paragraph, appended or not.
\<close>

fun collect_clauses :: "int \<Rightarrow> ustr list \<Rightarrow> ustr list \<Rightarrow> ustr list" where
  "collect_clauses max_clauses [] clauses = clauses"
| "collect_clauses max_clauses (p # ps) clauses =
     (let clauses' = (if length p > 40 then clauses @ [p] else clauses)
      in if int (length clauses') \<ge> max_clauses then clauses'
         else collect_clauses max_clauses ps clauses')"

definition extract_clauses :: "ustr \<Rightarrow> int \<Rightarrow> ustr list" where
  "extract_clauses text max_clauses =
     collect_clauses max_clauses (paragraphs (re_sub_newlines text)) []"

section \<open>Exceptions, capabilities and the state of the process\<close>

text \<open>
  An exception is a value. \<open>LibraryError\<close> stands for whatever exception a library outside
  the repository raises (loading a model, running it, parsing a PDF); like the others it
  derives from \<open>Exception\<close>, the class that the handlers of the source name.
\<close>

datatype py_exception =
  IndexError | ValueError | FileNotFoundError | UnicodeDecodeError | LibraryError string

type_synonym bytes = "8 word list"

type_synonym path = ustr

text \<open>
  The summarization capability takes the text, \<open>max_length\<close>, \<open>min_length\<close> and
  \<open>truncation\<close>, and returns the \<open>summary_text\<close> of each candidate, best first, or
  raises. The entailment capability takes a clause and a hypothesis and returns the
  ranked pairs of label and score, or raises. Both are functions of their arguments.
\<close>

type_synonym summarizer = "ustr \<Rightarrow> int \<Rightarrow> int \<Rightarrow> bool \<Rightarrow> py_exception + ustr list"

type_synonym classifier = "ustr \<Rightarrow> ustr \<Rightarrow> py_exception + (ustr \<times> real) list"

text \<open>
  What the program takes from outside the repository: \<open>str.lower\<close> and \<open>str.upper\<close>, the
  strict UTF-8 decoder, the PDF parser applied to the content of a file, the name that
  \<open>NamedTemporaryFile\<close> picks given the files that exist, and the outcome of the two
  calls of \<open>pipeline\<close> that construct the models.
\<close>

record env =
  str_lower :: "ustr \<Rightarrow> ustr"
  str_upper :: "ustr \<Rightarrow> ustr"
  decode_utf8 :: "bytes \<Rightarrow> py_exception + ustr"
  pdf_parse :: "bytes \<Rightarrow> py_exception + ustr"
  tmp_name :: "(path \<rightharpoonup> bytes) \<Rightarrow> path"
  pipeline_summarization :: "py_exception + summarizer"
  pipeline_text_classification :: "py_exception + classifier"

text \<open>Every invocation of a capability is recorded, in order.\<close>

datatype event =
  PdfExtract path
| Summarize ustr int int bool
| Classify ustr ustr

text \<open>
  The state: the two module globals \<open>_summarizer\<close> and \<open>_nli_classifier\<close>, the files
  that exist, and the invocations so far.
\<close>

record world =
  summarizer_global :: "summarizer option"
  nli_classifier_global :: "classifier option"
  files :: "path \<rightharpoonup> bytes"
  calls :: "event list"

definition get_summarizer :: "env \<Rightarrow> world \<Rightarrow> (py_exception + summarizer) \<times> world" where
  "get_summarizer e w =
     (case summarizer_global w of
        Some s \<Rightarrow> (Inr s, w)
      | None \<Rightarrow>
          (case pipeline_summarization e of
             Inl x \<Rightarrow> (Inl x, w)
           | Inr s \<Rightarrow> (Inr s, w\<lparr>summarizer_global := Some s\<rparr>)))"

definition get_nli :: "env \<Rightarrow> world \<Rightarrow> (py_exception + classifier) \<times> world" where
  "get_nli e w =
     (case nli_classifier_global w of
        Some c \<Rightarrow> (Inr c, w)
      | None \<Rightarrow>
          (case pipeline_text_classification e of
             Inl x \<Rightarrow> (Inl x, w)
           | Inr c \<Rightarrow> (Inr c, w\<lparr>nli_classifier_global := Some c\<rparr>)))"

section \<open>File handling\<close>

record upload =
  filename :: "ustr option"
  contents :: bytes

text \<open>\<open>contents.decode("latin-1")\<close>: every byte is the code point of its value.\<close>

definition decode_latin1 :: "bytes \<Rightarrow> ustr" where
  "decode_latin1 bs = map unat bs"

text \<open>
  \<open>pdf_extract_text(path)\<close> opens the file, which must exist, and parses its content.
\<close>

definition pdf_extract_text :: "env \<Rightarrow> path \<Rightarrow> world \<Rightarrow> (py_exception + ustr) \<times> world" where
  "pdf_extract_text e p w =
     (case files w p of
        None \<Rightarrow> (Inl FileNotFoundError, w\<lparr>calls := calls w @ [PdfExtract p]\<rparr>)
      | Some bs \<Rightarrow> (pdf_parse e bs, w\<lparr>calls := calls w @ [PdfExtract p]\<rparr>))"

text \<open>\<open>os.unlink(path)\<close> removes the file, and raises when there is none.\<close>

definition os_unlink :: "path \<Rightarrow> world \<Rightarrow> (py_exception + unit) \<times> world" where
  "os_unlink p w =
     (case files w p of
        None \<Rightarrow> (Inl FileNotFoundError, w)
      | Some bs \<Rightarrow> (Inr (), w\<lparr>files := (files w)(p := None)\<rparr>))"

text \<open>
  \<open>extract_text_from_upload\<close>. In the PDF branch the temporary file is created empty,
  written and closed; the \<open>finally\<close> clause runs after the extraction whatever its
  outcome, and an exception of the clause itself replaces that outcome. In the other
  branch the handler of the UTF-8 decoding decodes as latin-1.
\<close>

definition extract_text_from_upload ::
    "env \<Rightarrow> upload \<Rightarrow> world \<Rightarrow> (py_exception + ustr) \<times> world" where
  "extract_text_from_upload e up w =
     (let name = str_lower e (case filename up of None \<Rightarrow> [] | Some n \<Rightarrow> n);
          data = contents up
      in if endswith name (ustr ''.pdf'') then
           (let tmp = tmp_name e (files w);
                w1 = w\<lparr>files := (files w)(tmp \<mapsto> [])\<rparr>;
                w2 = w1\<lparr>files := (files w1)(tmp \<mapsto> data)\<rparr>;
                (r, w3) = pdf_extract_text e tmp w2;
                (u, w4) = os_unlink tmp w3
            in (case u of Inl x \<Rightarrow> (Inl x, w4) | Inr _ \<Rightarrow> (r, w4)))
         else
           (case decode_utf8 e data of
              Inr s \<Rightarrow> (Inr s, w)
            | Inl _ \<Rightarrow> (Inr (decode_latin1 data), w)))"

section \<open>Summarization\<close>

text \<open>
  \<open>range(0, n, step)\<close> for a positive step, and \<open>chunk_text\<close>: the words in slices of
  \<open>max_words\<close>, each slice joined by single spaces. A step of zero makes \<open>range\<close> raise,
  a negative one makes it empty.
\<close>

definition range_from_zero :: "nat \<Rightarrow> nat \<Rightarrow> nat list" where
  "range_from_zero n step = map (\<lambda>k. k * step) [0..<(n + step - 1) div step]"

definition word_slices :: "ustr list \<Rightarrow> nat \<Rightarrow> ustr list list" where
  "word_slices ws max_words =
     [take max_words (drop i ws). i \<leftarrow> range_from_zero (length ws) max_words]"

definition chunk_text :: "ustr \<Rightarrow> int \<Rightarrow> py_exception + ustr list" where
  "chunk_text text max_words =
     (let ws = str_split text
      in if max_words = 0 then Inl ValueError
         else if max_words < 0 then Inr []
         else Inr (map join_space (word_slices ws (nat max_words))))"

text \<open>
  One call \<open>summarizer(text, max_length=.., min_length=.., truncation=..)[0]["summary_text"]\<close>:
  the call is recorded, and indexing an empty result raises.
\<close>

definition top_summary ::
    "summarizer \<Rightarrow> ustr \<Rightarrow> int \<Rightarrow> int \<Rightarrow> bool \<Rightarrow> world \<Rightarrow> (py_exception + ustr) \<times> world" where
  "top_summary s text max_length min_length truncation w =
     (let w1 = w\<lparr>calls := calls w @ [Summarize text max_length min_length truncation]\<rparr>
      in case s text max_length min_length truncation of
           Inl x \<Rightarrow> (Inl x, w1)
         | Inr [] \<Rightarrow> (Inl IndexError, w1)
         | Inr (r # _) \<Rightarrow> (Inr r, w1))"

text \<open>The comprehension over the chunks: it stops at the first call that raises.\<close>

fun summarize_chunks ::
    "summarizer \<Rightarrow> ustr list \<Rightarrow> world \<Rightarrow> (py_exception + ustr list) \<times> world" where
  "summarize_chunks s [] w = (Inr [], w)"
| "summarize_chunks s (c # cs) w =
     (case top_summary s c 120 30 True w of
        (Inl x, w1) \<Rightarrow> (Inl x, w1)
      | (Inr p, w1) \<Rightarrow>
          (case summarize_chunks s cs w1 of
             (Inl x, w2) \<Rightarrow> (Inl x, w2)
           | (Inr ps, w2) \<Rightarrow> (Inr (p # ps), w2)))"

definition summarize_text ::
    "env \<Rightarrow> ustr \<Rightarrow> int \<Rightarrow> world \<Rightarrow> (py_exception + ustr) \<times> world" where
  "summarize_text e text max_length w =
     (case get_summarizer e w of
        (Inl x, w1) \<Rightarrow> (Inl x, w1)
      | (Inr s, w1) \<Rightarrow>
          if length (str_split text) < 800 then top_summary s text max_length 30 True w1
          else
            (case chunk_text text 700 of
               Inl x \<Rightarrow> (Inl x, w1)
             | Inr chunks \<Rightarrow>
                 (case summarize_chunks s chunks w1 of
                    (Inl x, w2) \<Rightarrow> (Inl x, w2)
                  | (Inr partials, w2) \<Rightarrow>
                      top_summary s (join_space partials) max_length 50 True w2)))"

section \<open>Risk analysis\<close>

definition hypotheses :: "ustr list" where
  "hypotheses =
     [ustr ''This clause allows termination without notice.'',
      ustr ''This clause removes or limits liability.'',
      ustr ''This clause allows automatic renewal.'',
      ustr ''This clause allows unilateral amendment.'']"

text \<open>\<open>sub in s\<close> on strings.\<close>

fun str_contains :: "ustr \<Rightarrow> ustr \<Rightarrow> bool" where
  "str_contains sub [] \<longleftrightarrow> sub = []"
| "str_contains sub (c # cs) \<longleftrightarrow> take (length sub) (c # cs) = sub \<or> str_contains sub cs"

text \<open>
  The formatted string \<open>f"{h} \<rightarrow> {clause[:200]}..."\<close>; the arrow is U+2192.
\<close>

definition finding :: "ustr \<Rightarrow> ustr \<Rightarrow> ustr" where
  "finding h clause = h @ [32, 8594, 32] @ take 200 clause @ ustr ''...''"

text \<open>
  The body of the \<open>try\<close>: the call is recorded; it may raise, and so may \<open>res[0]\<close>; the
  finding is appended when the label, in upper case, contains \<open>ENTAIL\<close> and the score
  exceeds 0.6. The value is the list \<open>flagged\<close> afterwards.
\<close>

definition classify_pair ::
    "env \<Rightarrow> classifier \<Rightarrow> ustr \<Rightarrow> ustr \<Rightarrow> ustr list \<Rightarrow> world \<Rightarrow>
     (py_exception + ustr list) \<times> world" where
  "classify_pair e nli clause h flagged w =
     (let w1 = w\<lparr>calls := calls w @ [Classify clause h]\<rparr>
      in case nli clause h of
           Inl x \<Rightarrow> (Inl x, w1)
         | Inr [] \<Rightarrow> (Inl IndexError, w1)
         | Inr (best # _) \<Rightarrow>
             (Inr (if str_contains (ustr ''ENTAIL'') (str_upper e (fst best)) \<and> snd best > 0.6
                   then flagged @ [finding h clause] else flagged), w1))"

text \<open>\<open>try: ... except Exception: pass\<close>: after an exception the list is as it was.\<close>

definition try_classify_pair ::
    "env \<Rightarrow> classifier \<Rightarrow> ustr \<Rightarrow> ustr \<Rightarrow> ustr list \<Rightarrow> world \<Rightarrow> ustr list \<times> world" where
  "try_classify_pair e nli clause h flagged w =
     (case classify_pair e nli clause h flagged w of
        (Inl _, w1) \<Rightarrow> (flagged, w1)
      | (Inr flagged', w1) \<Rightarrow> (flagged', w1))"

text \<open>The inner loop over the hypotheses and the outer loop over the clauses.\<close>

fun scan_hypotheses ::
    "env \<Rightarrow> classifier \<Rightarrow> ustr \<Rightarrow> ustr list \<Rightarrow> ustr list \<Rightarrow> world \<Rightarrow> ustr list \<times> world" where
  "scan_hypotheses e nli clause [] flagged w = (flagged, w)"
| "scan_hypotheses e nli clause (h # hs) flagged w =
     (case try_classify_pair e nli clause h flagged w of
        (flagged', w1) \<Rightarrow> scan_hypotheses e nli clause hs flagged' w1)"

fun scan_clauses ::
    "env \<Rightarrow> classifier \<Rightarrow> ustr list \<Rightarrow> ustr list \<Rightarrow> world \<Rightarrow> ustr list \<times> world" where
  "scan_clauses e nli [] flagged w = (flagged, w)"
| "scan_clauses e nli (clause # rest) flagged w =
     (case scan_hypotheses e nli clause hypotheses flagged w of
        (flagged', w1) \<Rightarrow> scan_clauses e nli rest flagged' w1)"

text \<open>
  \<open>list(dict.fromkeys(flagged))\<close>: the keys are inserted in order, and a key that is
  already there keeps its place.
\<close>

definition dict_fromkeys :: "'a list \<Rightarrow> 'a list" where
  "dict_fromkeys xs = foldl (\<lambda>keys k. if k \<in> set keys then keys else keys @ [k]) [] xs"

definition flag_risks_with_nli ::
    "env \<Rightarrow> ustr list \<Rightarrow> world \<Rightarrow> (py_exception + ustr list) \<times> world" where
  "flag_risks_with_nli e cls w =
     (case get_nli e w of
        (Inl x, w1) \<Rightarrow> (Inl x, w1)
      | (Inr nli, w1) \<Rightarrow>
          (case scan_clauses e nli cls [] w1 of
             (flagged, w2) \<Rightarrow> (Inr (dict_fromkeys flagged), w2)))"

section \<open>The endpoint\<close>

record analysis =
  summary :: ustr
  clauses :: "ustr list"
  flagged_risks :: "ustr list"

text \<open>The truth value of an optional string: \<open>None\<close> and the empty string are false.\<close>

definition truthy :: "ustr option \<Rightarrow> bool" where
  "truthy t = (case t of None \<Rightarrow> False | Some s \<Rightarrow> s \<noteq> [])"

definition analyze_document ::
    "env \<Rightarrow> ustr option \<Rightarrow> upload option \<Rightarrow> world \<Rightarrow> (py_exception + analysis) \<times> world" where
  "analyze_document e text file w =
     (if \<not> truthy text \<and> file = None
      then (Inr \<lparr>summary = [], clauses = [], flagged_risks = []\<rparr>, w)
      else
        (case (case file of
                 Some up \<Rightarrow> extract_text_from_upload e up w
               | None \<Rightarrow> (Inr (case text of None \<Rightarrow> [] | Some t \<Rightarrow> t), w)) of
           (Inl x, w1) \<Rightarrow> (Inl x, w1)
         | (Inr doc_text, w1) \<Rightarrow>
             (let cls = extract_clauses doc_text 20
              in case summarize_text e doc_text 200 w1 of
                   (Inl x, w2) \<Rightarrow> (Inl x, w2)
                 | (Inr s, w2) \<Rightarrow>
                     (case flag_risks_with_nli e cls w2 of
                        (Inl x, w3) \<Rightarrow> (Inl x, w3)
                      | (Inr risks, w3) \<Rightarrow>
                          (Inr \<lparr>summary = s, clauses = cls, flagged_risks = risks\<rparr>, w3)))))"

section \<open>An example environment\<close>

text \<open>
  A concrete environment on which the functions can be run: the case mappings on the
  ASCII letters, a strict UTF-8 decoder (no overlong forms, no surrogates, nothing above
  U+10FFFF), a parser that accepts only content starting with \<open>%PDF-\<close>, one fixed name
  for the temporary file, a summarizer that returns the first \<open>max_length\<close> characters as
  its only candidate, and a classifier that raises on an empty clause, finds entailment
  when the clause says \<open>without notice\<close> and the hypothesis is the first one, and is
  neutral otherwise.
\<close>

definition ascii_lower :: "ustr \<Rightarrow> ustr" where
  "ascii_lower s = map (\<lambda>c. if 65 \<le> c \<and> c \<le> 90 then c + 32 else c) s"

definition ascii_upper :: "ustr \<Rightarrow> ustr" where
  "ascii_upper s = map (\<lambda>c. if 97 \<le> c \<and> c \<le> 122 then c - 32 else c) s"

definition continuation :: "nat \<Rightarrow> bool" where
  "continuation b \<longleftrightarrow> 128 \<le> b \<and> b \<le> 191"

fun utf8_points :: "nat list \<Rightarrow> nat list option" where
  "utf8_points [] = Some []"
| "utf8_points (b # bs) =
     (if b < 128 then map_option ((#) b) (utf8_points bs)
      else if 194 \<le> b \<and> b \<le> 223 then
        (case bs of
           c1 # r \<Rightarrow>
             if continuation c1
             then map_option ((#) ((b - 192) * 64 + (c1 - 128))) (utf8_points r)
             else None
         | _ \<Rightarrow> None)
      else if 224 \<le> b \<and> b \<le> 239 then
        (case bs of
           c1 # c2 # r \<Rightarrow>
             if (if b = 224 then 160 else 128) \<le> c1 \<and> c1 \<le> (if b = 237 then 159 else 191) \<and>
                continuation c2
             then map_option ((#) ((b - 224) * 4096 + (c1 - 128) * 64 + (c2 - 128)))
                    (utf8_points r)
             else None
         | _ \<Rightarrow> None)
      else if 240 \<le> b \<and> b \<le> 244 then
        (case bs of
           c1 # c2 # c3 # r \<Rightarrow>
             if (if b = 240 then 144 else 128) \<le> c1 \<and> c1 \<le> (if b = 244 then 143 else 191) \<and>
                continuation c2 \<and> continuation c3
             then map_option
                    ((#) ((b - 240) * 262144 + (c1 - 128) * 4096 + (c2 - 128) * 64 + (c3 - 128)))
                    (utf8_points r)
             else None
         | _ \<Rightarrow> None)
      else None)"

definition strict_utf8 :: "bytes \<Rightarrow> py_exception + ustr" where
  "strict_utf8 bs =
     (case utf8_points (map unat bs) of None \<Rightarrow> Inl UnicodeDecodeError | Some s \<Rightarrow> Inr s)"

definition example_pdf_parse :: "bytes \<Rightarrow> py_exception + ustr" where
  "example_pdf_parse bs =
     (if take 5 bs = [37, 80, 68, 70, 45] then Inr (decode_latin1 (drop 5 bs))
      else Inl (LibraryError ''PDFSyntaxError''))"

definition example_summarizer :: summarizer where
  "example_summarizer text max_length min_length truncation = Inr [take (nat max_length) text]"

definition example_classifier :: classifier where
  "example_classifier clause h =
     (if clause = [] then Inl (LibraryError ''ValueError'')
      else if str_contains (ustr ''without notice'') clause \<and>
              h = ustr ''This clause allows termination without notice.''
      then Inr [(ustr ''ENTAILMENT'', 0.93)]
      else Inr [(ustr ''NEUTRAL'', 0.71)])"

definition example_env :: env where
  "example_env =
     \<lparr>str_lower = ascii_lower, str_upper = ascii_upper, decode_utf8 = strict_utf8,
      pdf_parse = example_pdf_parse, tmp_name = (\<lambda>fs. ustr ''/tmp/tmpk3v9x2.pdf''),
      pipeline_summarization = Inr example_summarizer,
      pipeline_text_classification = Inr example_classifier\<rparr>"

text \<open>The same environment when the entailment model cannot be loaded.\<close>

definition offline_env :: env where
  "offline_env = example_env\<lparr>pipeline_text_classification := Inl (LibraryError ''OSError'')\<rparr>"

text \<open>A fresh process: no model loaded, no file, no call made.\<close>

definition fresh_world :: world where
  "fresh_world =
     \<lparr>summarizer_global = None, nli_classifier_global = None, files = Map.empty, calls = []\<rparr>"

section \<open>Notions used in the statements\<close>

text \<open>\<open>xs.index(x)\<close> for an element of the list: the position of its first occurrence.\<close>

definition first_index :: "'a list \<Rightarrow> 'a \<Rightarrow> nat" where
  "first_index xs x = length (takeWhile (\<lambda>y. y \<noteq> x) xs)"

text \<open>
  The condition of the risk flagger in the words of the specification: the call returns
  at least one result, the label of the first one, in upper case, contains \<open>ENTAIL\<close>,
  and its score exceeds 0.6.
\<close>

definition recorded :: "env \<Rightarrow> classifier \<Rightarrow> ustr \<Rightarrow> ustr \<Rightarrow> bool" where
  "recorded e nli clause h \<longleftrightarrow>
     (\<exists>label score rest. nli clause h = Inr ((label, score) # rest) \<and>
        (\<exists>pre post. str_upper e label = pre @ ustr ''ENTAIL'' @ post) \<and> score > 0.6)"

text \<open>
  The findings in the order of the scan: the clauses in order and, within each clause,
  the four hypotheses in their fixed order.
\<close>

definition scan_findings :: "env \<Rightarrow> classifier \<Rightarrow> ustr list \<Rightarrow> ustr list" where
  "scan_findings e nli cls = [finding h c. c \<leftarrow> cls, h \<leftarrow> hypotheses, recorded e nli c h]"

text \<open>A text of 1500 words and two clauses, for the examples.\<close>

definition long_text :: ustr where
  "long_text = concat (replicate 1500 (ustr ''word ''))"

definition termination_clause :: ustr where
  "termination_clause =
     ustr ''Term: This Agreement may be terminated immediately without notice.''"

definition payment_clause :: ustr where
  "payment_clause = ustr ''Payment: Invoices are due in 30 days.''"

text \<open>
  The strings of a list written one after the other, with exactly one space (code point
  32) before each string but the first: what joining with single spaces means, spelled
  out with \<open>concat\<close> and \<open>map\<close>.
\<close>

abbreviation single_spaced :: "ustr list \<Rightarrow> ustr" where
  "single_spaced ps \<equiv> (case ps of [] \<Rightarrow> [] | p # qs \<Rightarrow> p @ concat (map ((#) 32) qs))"

text \<open>
  The example environment when the summarization model cannot be loaded, and when it
  loads but raises on every call.
\<close>

definition unavailable_summarizer_env :: env where
  "unavailable_summarizer_env =
     example_env\<lparr>pipeline_summarization := Inl (LibraryError ''OSError'')\<rparr>"

definition raising_summarizer :: summarizer where
  "raising_summarizer text max_length min_length truncation = Inl (LibraryError ''RuntimeError'')"

definition raising_summarizer_env :: env where
  "raising_summarizer_env = example_env\<lparr>pipeline_summarization := Inr raising_summarizer\<rparr>"

section \<open>Normalisation of blank lines\<close>

lemma re_sub_newlines_Nil_iff: "re_sub_newlines s = [] \<longleftrightarrow> s = []"
  by (cases s) auto

lemma hd_re_sub_newlines: "hd (re_sub_newlines s) = hd s"
  by (cases s) auto

lemma dropWhile_newline_head:
  "dropWhile (\<lambda>x. x = (10::nat)) cs = [] \<or> hd (dropWhile (\<lambda>x. x = 10) cs) \<noteq> 10"
  using hd_dropWhile [of "\<lambda>x. x = (10::nat)" cs] by blast

lemma re_sub_newlines_idem: "re_sub_newlines (re_sub_newlines s) = re_sub_newlines s"
proof (induction s rule: re_sub_newlines.induct)
  case 1
  show ?case by simp
next
  case (2 c cs)
  show ?case
  proof (cases "c = 10 \<and> cs \<noteq> [] \<and> hd cs = 10")
    case True
    define r where "r = dropWhile (\<lambda>x. x = (10::nat)) cs"
    have ih: "re_sub_newlines (re_sub_newlines r) = re_sub_newlines r"
      using 2(1) True by (simp add: r_def)
    have head: "r = [] \<or> hd r \<noteq> 10"
      unfolding r_def by (rule dropWhile_newline_head)
    have keep: "dropWhile (\<lambda>x. x = (10::nat)) (re_sub_newlines r) = re_sub_newlines r"
    proof (cases "r = []")
      case True
      then show ?thesis by simp
    next
      case False
      with head have "hd (re_sub_newlines r) \<noteq> 10"
        by (simp add: hd_re_sub_newlines)
      moreover from False have "re_sub_newlines r \<noteq> []"
        by (simp add: re_sub_newlines_Nil_iff)
      ultimately show ?thesis
        by (cases "re_sub_newlines r") auto
    qed
    have "re_sub_newlines (c # cs) = 10 # 10 # re_sub_newlines r"
      using True by (simp add: r_def)
    moreover have "re_sub_newlines (10 # 10 # re_sub_newlines r) =
        10 # 10 # re_sub_newlines (re_sub_newlines r)"
      by (simp add: keep)
    ultimately show ?thesis by (simp add: ih)
  next
    case False
    have ih: "re_sub_newlines (re_sub_newlines cs) = re_sub_newlines cs"
      using 2(2) False by simp
    have out: "re_sub_newlines (c # cs) = c # re_sub_newlines cs"
      using False by auto
    have "\<not> (c = 10 \<and> re_sub_newlines cs \<noteq> [] \<and> hd (re_sub_newlines cs) = 10)"
      using False by (simp add: re_sub_newlines_Nil_iff hd_re_sub_newlines)
    then have "re_sub_newlines (c # re_sub_newlines cs) =
        c # re_sub_newlines (re_sub_newlines cs)"
      by auto
    with out ih show ?thesis by simp
  qed
qed

text \<open>
  Claim C9: the normalisation of blank lines used by the clause segmenter is idempotent.
  For every text, replacing the runs of newlines a second time changes nothing, and so the
  paragraphs found after two normalisations are those found after one.
\<close>

theorem normalisation_idempotent:
  "re_sub_newlines (re_sub_newlines text) = re_sub_newlines text \<and>
   paragraphs (re_sub_newlines (re_sub_newlines text)) = paragraphs (re_sub_newlines text)"
  by (simp add: re_sub_newlines_idem)

theorem normalisation_idempotent_witness:
  "re_sub_newlines (re_sub_newlines [97, 10, 10, 10, 10, 98, 10, 99]) =
     [97, 10, 10, 98, 10, 99]"
  using normalisation_idempotent [of "[97, 10, 10, 10, 10, 98, 10, 99]"] by simp

section \<open>The bound on the number of clauses\<close>

lemma collect_clauses_take:
  "int (length acc) < m \<Longrightarrow>
   collect_clauses m ps acc = acc @ take (nat m - length acc) (filter (\<lambda>p. length p > 40) ps)"
proof (induction ps arbitrary: acc)
  case Nil
  then show ?case by simp
next
  case (Cons p ps)
  show ?case
  proof (cases "length p > 40")
    case True
    show ?thesis
    proof (cases "int (length (acc @ [p])) \<ge> m")
      case ge: True
      with Cons.prems have "nat m - length acc = 1" by auto
      with True ge show ?thesis by simp
    next
      case lt: False
      then have "int (length (acc @ [p])) < m" by simp
      from Cons.IH [OF this] True lt Cons.prems show ?thesis
        by (simp add: take_Cons' Suc_diff_le)
    qed
  next
    case False
    with Cons.prems Cons.IH [OF Cons.prems] show ?thesis by simp
  qed
qed

lemma collect_clauses_nonpos:
  "m \<le> 0 \<Longrightarrow> collect_clauses m ps [] = filter (\<lambda>p. length p > 40) (take 1 ps)"
  by (cases ps) auto

text \<open>
  With a bound of at least one, the clauses are the first \<open>max_clauses\<close> paragraphs longer
  than 40 characters, in the order of the document: at most \<open>max_clauses\<close> of them, each a
  stripped paragraph, and none when no paragraph is that long.
\<close>

lemma extract_clauses_positive:
  "1 \<le> max_clauses \<Longrightarrow>
   extract_clauses text max_clauses =
     take (nat max_clauses) (filter (\<lambda>p. length p > 40) (paragraphs (re_sub_newlines text)))"
  by (simp add: extract_clauses_def collect_clauses_take)

lemma extract_clauses_positive_length:
  "1 \<le> max_clauses \<Longrightarrow> int (length (extract_clauses text max_clauses)) \<le> max_clauses"
  by (simp add: extract_clauses_positive)

lemma extract_clauses_entries:
  "c \<in> set (extract_clauses text max_clauses) \<Longrightarrow>
   c \<in> set (paragraphs (re_sub_newlines text)) \<and> 40 < length c"
proof (cases "1 \<le> max_clauses")
  case True
  assume "c \<in> set (extract_clauses text max_clauses)"
  with True have "c \<in> set (filter (\<lambda>p. length p > 40) (paragraphs (re_sub_newlines text)))"
    by (auto simp: extract_clauses_positive dest: in_set_takeD)
  then show ?thesis by simp
next
  case False
  assume "c \<in> set (extract_clauses text max_clauses)"
  with False have "c \<in> set (filter (\<lambda>p. length p > 40) (take 1 (paragraphs (re_sub_newlines text))))"
    by (simp add: extract_clauses_def collect_clauses_nonpos)
  then show ?thesis by (auto dest: in_set_takeD)
qed

lemma extract_clauses_none_long:
  "\<forall>p \<in> set (paragraphs (re_sub_newlines text)). length p \<le> 40 \<Longrightarrow>
   extract_clauses text max_clauses = []"
  using extract_clauses_entries [of _ "text" max_clauses]
  by (cases "extract_clauses text max_clauses") (auto simp: not_less [symmetric] simp del: not_less)

text \<open>
  With a bound of zero or less, the test after the first paragraph ends the loop, whether
  or not that paragraph was appended.
\<close>

lemma extract_clauses_nonpositive:
  "max_clauses \<le> 0 \<Longrightarrow>
   extract_clauses text max_clauses =
     filter (\<lambda>p. length p > 40) (take 1 (paragraphs (re_sub_newlines text)))"
  by (simp add: extract_clauses_def collect_clauses_nonpos)

text \<open>
  Claim C2: for every text and every \<open>max_clauses\<close>, \<open>extract_clauses\<close> returns at most
  \<open>max_clauses\<close> entries, each a stripped paragraph longer than 40 characters, in document
  order, and none for a document without such a paragraph. The bound fails at
  \<open>max_clauses = 0\<close>: a document of one paragraph of 41 characters yields that paragraph,
  one entry where the bound allows none, because the loop appends before it tests the
  bound.
\<close>

theorem extract_clauses_exceeds_zero_bound:
  "extract_clauses (ustr ''Payment: Invoices are due within 30 days.'') 0 =
     [ustr ''Payment: Invoices are due within 30 days.''] \<and>
   \<not> int (length (extract_clauses (ustr ''Payment: Invoices are due within 30 days.'') 0)) \<le> 0"
  by (simp add: extract_clauses_def paragraphs_def ustr_def blank_match_def str_strip_def
      isspace_def)

section \<open>The empty request\<close>

text \<open>
  Claim C5: when neither a text nor a file is supplied, \<open>analyze_document\<close> returns the
  result with an empty summary, no clause and no flagged risk, and invokes no capability:
  the state is returned as it was, so no model is loaded, no file is touched and no call
  is recorded. Segmentation is a pure function; that it is not called shows in the empty
  list of clauses.
\<close>

theorem analyze_nothing:
  "analyze_document e None None w =
     (Inr \<lparr>summary = [], clauses = [], flagged_risks = []\<rparr>, w)"
  by (simp add: analyze_document_def truthy_def)

theorem analyze_nothing_witness:
  "analyze_document example_env None None fresh_world =
     (Inr \<lparr>summary = [], clauses = [], flagged_risks = []\<rparr>, fresh_world) \<and>
   calls (snd (analyze_document example_env None None fresh_world)) = []"
  using analyze_nothing [of example_env fresh_world] by (simp add: fresh_world_def)

text \<open>
  Claim C10: the empty string as text, with no file, is treated as no text at all: the
  same empty result, and the state returned as it was.
\<close>

theorem analyze_empty_text:
  "analyze_document e (Some []) None w =
     (Inr \<lparr>summary = [], clauses = [], flagged_risks = []\<rparr>, w) \<and>
   analyze_document e (Some []) None w = analyze_document e None None w"
  by (simp add: analyze_document_def truthy_def)

theorem analyze_empty_text_witness:
  "analyze_document example_env (Some (ustr '''')) None fresh_world =
     (Inr \<lparr>summary = [], clauses = [], flagged_risks = []\<rparr>, fresh_world)"
  using analyze_empty_text [of example_env fresh_world] by (simp add: ustr_def)

section \<open>Text extraction from an upload\<close>

lemma ascii_lower_keeps_pdf:
  assumes "endswith s (ustr ''.pdf'')"
  shows "endswith (ascii_lower s) (ustr ''.pdf'')"
proof -
  let ?k = "length s - length (ustr ''.pdf'')"
  from assms have len: "length (ustr ''.pdf'') \<le> length s" and d: "drop ?k s = ustr ''.pdf''"
    by (simp_all add: endswith_def)
  have "drop ?k (ascii_lower s) = ascii_lower (drop ?k s)"
    by (simp add: ascii_lower_def drop_map)
  also have "\<dots> = ascii_lower (ustr ''.pdf'')"
    by (simp only: d)
  also have "\<dots> = ustr ''.pdf''"
    by (simp add: ascii_lower_def ustr_def)
  finally show ?thesis
    using len by (simp add: endswith_def ascii_lower_def)
qed

lemma pdf_branch:
  assumes "endswith (str_lower e (case filename up of None \<Rightarrow> [] | Some n \<Rightarrow> n)) (ustr ''.pdf'')"
  shows "extract_text_from_upload e up w =
     (pdf_parse e (contents up),
      w\<lparr>files := (files w)(tmp_name e (files w) := None),
        calls := calls w @ [PdfExtract (tmp_name e (files w))]\<rparr>)"
  using assms
  by (simp add: extract_text_from_upload_def Let_def pdf_extract_text_def os_unlink_def)

text \<open>
  Claim C7: for every upload whose filename does not end in \<open>.pdf\<close>, text extraction
  never raises. As stated this fails: the test is made on the filename in lower case, so
  \<open>SCAN.PDF\<close>, which does not end in \<open>.pdf\<close>, is parsed as a PDF, and the failure of the
  parser on its two bytes is raised.
\<close>

theorem upper_case_pdf_name_raises:
  "\<not> endswith (ustr ''SCAN.PDF'') (ustr ''.pdf'') \<and>
   fst (extract_text_from_upload example_env
          \<lparr>filename = Some (ustr ''SCAN.PDF''), contents = [104, 105]\<rparr> fresh_world) =
     Inl (LibraryError ''PDFSyntaxError'')"
  by (simp add: extract_text_from_upload_def Let_def pdf_extract_text_def os_unlink_def
      example_env_def ascii_lower_def ustr_def endswith_def example_pdf_parse_def
      fresh_world_def)

text \<open>
  Claim C7, amended: for every upload whose filename in lower case does not end in
  \<open>.pdf\<close> (a missing filename counts as the empty one) and for every content, text
  extraction returns a string and leaves the state as it was: the UTF-8 decoding when it
  succeeds, and the latin-1 decoding, which is defined on all bytes, when it raises.
\<close>

theorem text_upload_never_raises:
  assumes "\<not> endswith (str_lower e (case filename up of None \<Rightarrow> [] | Some n \<Rightarrow> n))
             (ustr ''.pdf'')"
  shows "extract_text_from_upload e up w =
     (Inr (case decode_utf8 e (contents up) of
             Inr s \<Rightarrow> s
           | Inl x \<Rightarrow> decode_latin1 (contents up)), w)"
  using assms by (simp add: extract_text_from_upload_def Let_def split: sum.splits)

theorem text_upload_never_raises_witness:
  "\<not> endswith (str_lower example_env (ustr ''notes.txt'')) (ustr ''.pdf'') \<and>
   decode_utf8 example_env [255, 65] = Inl UnicodeDecodeError \<and>
   extract_text_from_upload example_env
      \<lparr>filename = Some (ustr ''notes.txt''), contents = [255, 65]\<rparr> fresh_world =
     (Inr [255, 65], fresh_world)"
proof -
  have name: "\<not> endswith (str_lower example_env (ustr ''notes.txt'')) (ustr ''.pdf'')"
    by (simp add: example_env_def ascii_lower_def ustr_def endswith_def)
  have dec: "decode_utf8 example_env [255, 65] = Inl UnicodeDecodeError"
    by (simp add: example_env_def strict_utf8_def)
  from name have "\<not> endswith (str_lower example_env
      (case filename \<lparr>filename = Some (ustr ''notes.txt''), contents = [255, 65]\<rparr> of
         None \<Rightarrow> [] | Some n \<Rightarrow> n)) (ustr ''.pdf'')"
    by simp
  from text_upload_never_raises [OF this, of fresh_world] name dec show ?thesis
    by (simp add: decode_latin1_def)
qed

text \<open>
  Claim C8: for every upload whose filename ends in \<open>.pdf\<close>, the temporary file is
  removed on every exit path, and a failure of the PDF extraction is raised to the
  caller. The result of \<open>extract_text_from_upload\<close> is the outcome of the parser on the
  uploaded bytes, text or exception, and in both cases the temporary file is not among
  the files afterwards. The filename is tested in lower case; \<open>str.lower\<close> leaves the
  suffix \<open>.pdf\<close> as it is, which is the third hypothesis.
\<close>

theorem pdf_temporary_file_removed:
  assumes "filename up = Some name" and "endswith name (ustr ''.pdf'')"
    and "\<forall>s. endswith s (ustr ''.pdf'') \<longrightarrow> endswith (str_lower e s) (ustr ''.pdf'')"
  shows "fst (extract_text_from_upload e up w) = pdf_parse e (contents up) \<and>
     files (snd (extract_text_from_upload e up w)) = (files w)(tmp_name e (files w) := None) \<and>
     tmp_name e (files w) \<notin> dom (files (snd (extract_text_from_upload e up w)))"
proof -
  from assms
  have "endswith (str_lower e (case filename up of None \<Rightarrow> [] | Some n \<Rightarrow> n)) (ustr ''.pdf'')"
    by simp
  from pdf_branch [OF this] show ?thesis by simp
qed

theorem pdf_temporary_file_removed_witness:
  "fst (extract_text_from_upload example_env
          \<lparr>filename = Some (ustr ''lease.pdf''), contents = [37, 80, 68, 70, 45, 79, 75]\<rparr>
          fresh_world) = Inr [79, 75] \<and>
   files (snd (extract_text_from_upload example_env
          \<lparr>filename = Some (ustr ''lease.pdf''), contents = [37, 80, 68, 70, 45, 79, 75]\<rparr>
          fresh_world)) = Map.empty \<and>
   fst (extract_text_from_upload example_env
          \<lparr>filename = Some (ustr ''lease.pdf''), contents = [104, 105]\<rparr> fresh_world) =
     Inl (LibraryError ''PDFSyntaxError'') \<and>
   files (snd (extract_text_from_upload example_env
          \<lparr>filename = Some (ustr ''lease.pdf''), contents = [104, 105]\<rparr> fresh_world)) =
     Map.empty"
proof -
  have suffix: "endswith (ustr ''lease.pdf'') (ustr ''.pdf'')"
    by (simp add: endswith_def ustr_def)
  have lower: "\<forall>s. endswith s (ustr ''.pdf'') \<longrightarrow>
      endswith (str_lower example_env s) (ustr ''.pdf'')"
    by (simp add: example_env_def ascii_lower_keeps_pdf)
  have good: "pdf_parse example_env [37, 80, 68, 70, 45, 79, 75] = Inr [79, 75]"
    by (simp add: example_env_def example_pdf_parse_def decode_latin1_def)
  have bad: "pdf_parse example_env [104, 105] = Inl (LibraryError ''PDFSyntaxError'')"
    by (simp add: example_env_def example_pdf_parse_def)
  have none: "files fresh_world = Map.empty"
    by (simp add: fresh_world_def)
  from pdf_temporary_file_removed
    [of "\<lparr>filename = Some (ustr ''lease.pdf''), contents = [37, 80, 68, 70, 45, 79, 75]\<rparr>"
      "ustr ''lease.pdf''" example_env fresh_world]
    pdf_temporary_file_removed
    [of "\<lparr>filename = Some (ustr ''lease.pdf''), contents = [104, 105]\<rparr>"
      "ustr ''lease.pdf''" example_env fresh_world]
    suffix lower good bad none
  show ?thesis by simp
qed

section \<open>The risk flagger\<close>

lemma take_is_prefix: "take (length sub) s = sub \<longleftrightarrow> (\<exists>post. s = sub @ post)"
proof
  assume "take (length sub) s = sub"
  then have "s = sub @ drop (length sub) s"
    by (metis append_take_drop_id)
  then show "\<exists>post. s = sub @ post" ..
next
  assume "\<exists>post. s = sub @ post"
  then show "take (length sub) s = sub" by auto
qed

lemma str_contains_iff: "str_contains sub s \<longleftrightarrow> (\<exists>pre post. s = pre @ sub @ post)"
proof (induction s)
  case Nil
  show ?case by auto
next
  case (Cons c cs)
  show ?case
  proof
    assume "str_contains sub (c # cs)"
    then consider "take (length sub) (c # cs) = sub" | "str_contains sub cs"
      by auto
    then show "\<exists>pre post. c # cs = pre @ sub @ post"
    proof cases
      case 1
      then obtain post where "c # cs = sub @ post"
        using take_is_prefix [of sub "c # cs"] by blast
      then have "c # cs = [] @ sub @ post" by simp
      then show ?thesis by blast
    next
      case 2
      with Cons.IH obtain pre post where "cs = pre @ sub @ post" by blast
      then have "c # cs = (c # pre) @ sub @ post" by simp
      then show ?thesis by blast
    qed
  next
    assume "\<exists>pre post. c # cs = pre @ sub @ post"
    then obtain pre post where eq: "c # cs = pre @ sub @ post" by blast
    show "str_contains sub (c # cs)"
    proof (cases pre)
      case Nil
      with eq have "take (length sub) (c # cs) = sub"
        using take_is_prefix [of sub "c # cs"] by auto
      then show ?thesis by simp
    next
      case (Cons p pre')
      with eq have "cs = pre' @ sub @ post" by simp
      with Cons.IH have "str_contains sub cs" by blast
      then show ?thesis by simp
    qed
  qed
qed

lemma try_classify_pair_eq:
  "try_classify_pair e nli clause h flagged w =
     (flagged @ (if recorded e nli clause h then [finding h clause] else []),
      w\<lparr>calls := calls w @ [Classify clause h]\<rparr>)"
proof (cases "nli clause h")
  case (Inl x)
  then show ?thesis
    by (simp add: try_classify_pair_def classify_pair_def recorded_def)
next
  case (Inr res)
  show ?thesis
  proof (cases res)
    case Nil
    with Inr show ?thesis
      by (simp add: try_classify_pair_def classify_pair_def recorded_def)
  next
    case (Cons best rest)
    with Inr show ?thesis
      by (cases best)
        (simp add: try_classify_pair_def classify_pair_def recorded_def str_contains_iff)
  qed
qed

lemma scan_hypotheses_eq:
  "scan_hypotheses e nli clause hs flagged w =
     (flagged @ [finding h clause. h \<leftarrow> hs, recorded e nli clause h],
      w\<lparr>calls := calls w @ map (Classify clause) hs\<rparr>)"
  by (induction hs arbitrary: flagged w) (simp_all add: try_classify_pair_eq)

lemma scan_clauses_eq:
  "scan_clauses e nli cls flagged w =
     (flagged @ scan_findings e nli cls,
      w\<lparr>calls := calls w @ [Classify c h. c \<leftarrow> cls, h \<leftarrow> hypotheses]\<rparr>)"
  by (induction cls arbitrary: flagged w) (simp_all add: scan_hypotheses_eq scan_findings_def)

lemma dict_fromkeys_snoc:
  "dict_fromkeys (xs @ [x]) =
     (if x \<in> set (dict_fromkeys xs) then dict_fromkeys xs else dict_fromkeys xs @ [x])"
  by (simp add: dict_fromkeys_def)

lemma set_dict_fromkeys: "set (dict_fromkeys xs) = set xs"
  by (induction xs rule: rev_induct) (auto simp: dict_fromkeys_snoc dict_fromkeys_def)

lemma distinct_dict_fromkeys: "distinct (dict_fromkeys xs)"
  by (induction xs rule: rev_induct) (auto simp: dict_fromkeys_snoc dict_fromkeys_def)

lemma first_index_append_in: "a \<in> set xs \<Longrightarrow> first_index (xs @ ys) a = first_index xs a"
  by (induction xs) (auto simp: first_index_def)

lemma first_index_less: "a \<in> set xs \<Longrightarrow> first_index xs a < length xs"
  by (induction xs) (auto simp: first_index_def)

lemma first_index_new: "x \<notin> set xs \<Longrightarrow> first_index (xs @ [x]) x = length xs"
  by (induction xs) (auto simp: first_index_def)

lemma sorted_dict_fromkeys:
  "sorted_wrt (\<lambda>a b. first_index xs a < first_index xs b) (dict_fromkeys xs)"
proof (induction xs rule: rev_induct)
  case Nil
  show ?case by (simp add: dict_fromkeys_def)
next
  case (snoc x xs)
  have old: "sorted_wrt (\<lambda>a b. first_index (xs @ [x]) a < first_index (xs @ [x]) b)
      (dict_fromkeys xs)"
    using snoc.IH
    by (rule sorted_wrt_mono_rel [rotated])
      (simp add: set_dict_fromkeys first_index_append_in)
  show ?case
  proof (cases "x \<in> set xs")
    case True
    with old show ?thesis
      by (simp add: dict_fromkeys_snoc set_dict_fromkeys)
  next
    case False
    have "\<forall>a \<in> set (dict_fromkeys xs). first_index (xs @ [x]) a < first_index (xs @ [x]) x"
      using False
      by (simp add: set_dict_fromkeys first_index_append_in first_index_new first_index_less)
    with old False show ?thesis
      by (simp add: dict_fromkeys_snoc set_dict_fromkeys sorted_wrt_append)
  qed
qed


lemma recorded_code:
  "recorded e nli clause h \<longleftrightarrow>
     (case nli clause h of
        Inl x \<Rightarrow> False
      | Inr [] \<Rightarrow> False
      | Inr ((label, score) # rest) \<Rightarrow>
          str_contains (ustr ''ENTAIL'') (str_upper e label) \<and> score > 0.6)"
proof (cases "nli clause h")
  case (Inl x)
  then show ?thesis by (simp add: recorded_def)
next
  case (Inr res)
  show ?thesis
  proof (cases res)
    case Nil
    with Inr show ?thesis by (simp add: recorded_def)
  next
    case (Cons best rest)
    with Inr show ?thesis
      by (cases best) (simp add: recorded_def str_contains_iff)
  qed
qed

lemma flag_risks_with_nli_eq:
  assumes "get_nli e w = (Inr nli, w1)"
  shows "flag_risks_with_nli e cls w =
     (Inr (dict_fromkeys (scan_findings e nli cls)),
      w1\<lparr>calls := calls w1 @ [Classify c h. c \<leftarrow> cls, h \<leftarrow> hypotheses]\<rparr>)"
  using assms by (simp add: flag_risks_with_nli_def scan_clauses_eq)

text \<open>The example classifier on the two example clauses.\<close>

lemma get_nli_example:
  "get_nli example_env fresh_world =
     (Inr example_classifier, fresh_world\<lparr>nli_classifier_global := Some example_classifier\<rparr>)"
  by (simp add: get_nli_def example_env_def fresh_world_def)

lemma example_classifier_termination:
  "example_classifier termination_clause
     (ustr ''This clause allows termination without notice.'') =
   Inr [(ustr ''ENTAILMENT'', 0.93)]"
  by (simp add: example_classifier_def termination_clause_def ustr_def)

lemma upper_entailment:
  "str_contains (ustr ''ENTAIL'') (str_upper example_env (ustr ''ENTAILMENT''))"
  by (simp add: example_env_def ascii_upper_def ustr_def)

lemma recorded_termination:
  "recorded example_env example_classifier termination_clause
     (ustr ''This clause allows termination without notice.'')"
  unfolding recorded_code example_classifier_termination using upper_entailment by simp

lemma not_recorded_other_hypothesis:
  "h \<noteq> ustr ''This clause allows termination without notice.'' \<Longrightarrow>
   \<not> recorded example_env example_classifier c h"
  by (simp add: recorded_code example_classifier_def ustr_def example_env_def ascii_upper_def)

lemma not_recorded_payment: "\<not> recorded example_env example_classifier payment_clause h"
  by (simp add: recorded_code example_classifier_def ustr_def payment_clause_def
      example_env_def ascii_upper_def)

lemma not_recorded_empty: "\<not> recorded example_env example_classifier [] h"
  by (simp add: recorded_code example_classifier_def)

lemma not_recorded_rest:
  "\<not> recorded example_env example_classifier c (ustr ''This clause removes or limits liability.'')"
  "\<not> recorded example_env example_classifier c (ustr ''This clause allows automatic renewal.'')"
  "\<not> recorded example_env example_classifier c (ustr ''This clause allows unilateral amendment.'')"
  by (rule not_recorded_other_hypothesis, simp add: ustr_def)+

lemma scan_findings_example:
  "scan_findings example_env example_classifier
      [termination_clause, payment_clause, termination_clause] =
     [finding (ustr ''This clause allows termination without notice.'') termination_clause,
      finding (ustr ''This clause allows termination without notice.'') termination_clause]"
  by (simp add: scan_findings_def hypotheses_def recorded_termination not_recorded_rest
      not_recorded_payment)

lemma scan_findings_failing_example:
  "scan_findings example_env example_classifier [[], termination_clause] =
     [finding (ustr ''This clause allows termination without notice.'') termination_clause]"
  by (simp add: scan_findings_def hypotheses_def recorded_termination not_recorded_rest
      not_recorded_empty)

text \<open>
  Claim C4: for every pair of a clause and a hypothesis, a finding is recorded exactly
  when the label of the first result, in upper case, contains \<open>ENTAIL\<close> and its score
  exceeds 0.6, and the finding is the hypothesis, an arrow between two spaces, the first
  200 characters of the clause and three dots. One step of the scan appends that string
  or nothing, and the list built by the whole scan is the list of these findings, pair
  by pair.
\<close>

theorem finding_recorded_iff:
  "try_classify_pair e nli clause h flagged w =
     (if recorded e nli clause h
      then flagged @ [h @ ustr '' '' @ [8594] @ ustr '' '' @ take 200 clause @ ustr ''...'']
      else flagged,
      w\<lparr>calls := calls w @ [Classify clause h]\<rparr>) \<and>
   fst (scan_clauses e nli cls [] w) = scan_findings e nli cls \<and>
   length (take 200 clause) = min (length clause) 200"
  by (simp add: try_classify_pair_eq scan_clauses_eq finding_def ustr_def)

theorem finding_recorded_iff_witness:
  "recorded example_env example_classifier termination_clause
     (ustr ''This clause allows termination without notice.'') \<and>
   fst (try_classify_pair example_env example_classifier termination_clause
          (ustr ''This clause allows termination without notice.'') [] fresh_world) =
     [ustr ''This clause allows termination without notice.'' @ [32, 8594, 32] @
      termination_clause @ ustr ''...''] \<and>
   \<not> recorded example_env example_classifier payment_clause
     (ustr ''This clause allows termination without notice.'') \<and>
   fst (try_classify_pair example_env example_classifier payment_clause
          (ustr ''This clause allows termination without notice.'') [] fresh_world) = []"
  using finding_recorded_iff
    [of example_env example_classifier termination_clause
      "ustr ''This clause allows termination without notice.''" "[]" fresh_world "[]"]
    finding_recorded_iff
    [of example_env example_classifier payment_clause
      "ustr ''This clause allows termination without notice.''" "[]" fresh_world "[]"]
    recorded_termination not_recorded_payment
  by (simp add: termination_clause_def ustr_def)

text \<open>
  Claim C3: the list returned by \<open>flag_risks_with_nli\<close> has no duplicate, and its
  findings are in the order of their first occurrence in the scan, clauses in order and
  the four hypotheses in fixed order within each clause. Whenever the function returns,
  that is whenever \<open>get_nli\<close> yields the classifier, the returned list is duplicate-free,
  has the elements of the scanned list, and is ordered by first occurrence there.
\<close>

theorem flag_risks_no_duplicates:
  assumes "get_nli e w = (Inr nli, w1)"
  shows "fst (scan_clauses e nli cls [] w1) = scan_findings e nli cls \<and>
    (\<exists>fs. fst (flag_risks_with_nli e cls w) = Inr fs \<and> distinct fs \<and>
       set fs = set (scan_findings e nli cls) \<and>
       sorted_wrt (\<lambda>a b. first_index (scan_findings e nli cls) a <
                         first_index (scan_findings e nli cls) b) fs)"
proof -
  have "fst (flag_risks_with_nli e cls w) = Inr (dict_fromkeys (scan_findings e nli cls))"
    using flag_risks_with_nli_eq [OF assms] by simp
  then show ?thesis
    using distinct_dict_fromkeys [of "scan_findings e nli cls"]
      set_dict_fromkeys [of "scan_findings e nli cls"]
      sorted_dict_fromkeys [of "scan_findings e nli cls"]
    by (simp add: scan_clauses_eq)
qed

theorem flag_risks_no_duplicates_witness:
  "scan_findings example_env example_classifier
      [termination_clause, payment_clause, termination_clause] =
     [finding (ustr ''This clause allows termination without notice.'') termination_clause,
      finding (ustr ''This clause allows termination without notice.'') termination_clause] \<and>
   (\<exists>fs. fst (flag_risks_with_nli example_env
                [termination_clause, payment_clause, termination_clause] fresh_world) = Inr fs \<and>
      distinct fs \<and>
      set fs =
        {finding (ustr ''This clause allows termination without notice.'') termination_clause})"
  using flag_risks_no_duplicates
    [OF get_nli_example, of "[termination_clause, payment_clause, termination_clause]"]
  by (auto simp: scan_findings_example)

text \<open>
  Claim C6: \<open>flag_risks_with_nli\<close> never raises, whatever the entailment capability
  does. As stated this fails: \<open>get_nli\<close> is called before the loop, outside the \<open>try\<close>,
  and when the model cannot be constructed its exception leaves the function, even for
  an empty list of clauses.
\<close>

theorem flag_risks_raises_when_model_unavailable:
  "fst (flag_risks_with_nli offline_env [] fresh_world) = Inl (LibraryError ''OSError'') \<and>
   \<not> (\<exists>fs. fst (flag_risks_with_nli offline_env [] fresh_world) = Inr fs)"
  by (simp add: flag_risks_with_nli_def get_nli_def offline_env_def example_env_def
      fresh_world_def)

text \<open>
  Claim C6, amended: whenever \<open>get_nli\<close> yields the classifier (it is already loaded, or
  its construction succeeds), \<open>flag_risks_with_nli\<close> returns a list, for every list of
  clauses and every behaviour of the classifier on the pairs. Every pair is classified,
  in order, whether or not earlier pairs failed; a pair whose call raises or returns no
  result records nothing.
\<close>

theorem flag_risks_returns_once_model_loaded:
  assumes "get_nli e w = (Inr nli, w1)"
  shows "flag_risks_with_nli e cls w =
     (Inr (dict_fromkeys (scan_findings e nli cls)),
      w1\<lparr>calls := calls w1 @ [Classify c h. c \<leftarrow> cls, h \<leftarrow> hypotheses]\<rparr>) \<and>
    (\<forall>c h. (\<exists>x. nli c h = Inl x) \<or> nli c h = Inr [] \<longrightarrow> \<not> recorded e nli c h)"
  using flag_risks_with_nli_eq [OF assms] by (auto simp: recorded_def)

theorem flag_risks_returns_once_model_loaded_witness:
  "example_classifier [] (ustr ''This clause allows termination without notice.'') =
     Inl (LibraryError ''ValueError'') \<and>
   fst (flag_risks_with_nli example_env [[], termination_clause] fresh_world) =
     Inr [finding (ustr ''This clause allows termination without notice.'') termination_clause] \<and>
   calls (snd (flag_risks_with_nli example_env [[], termination_clause] fresh_world)) =
     map (Classify []) hypotheses @ map (Classify termination_clause) hypotheses"
  using flag_risks_returns_once_model_loaded
    [OF get_nli_example, of "[[], termination_clause]"]
  by (simp add: scan_findings_failing_example dict_fromkeys_def example_classifier_def
      fresh_world_def)

section \<open>The chunked summarizer\<close>

lemma range_cover: "0 < k \<Longrightarrow> n \<le> ((n + k - 1) div k) * (k::nat)"
proof -
  assume k: "0 < k"
  have "n + k - 1 = ((n + k - 1) div k) * k + (n + k - 1) mod k"
    by simp
  moreover have "(n + k - 1) mod k < k"
    using k by simp
  ultimately show ?thesis by linarith
qed

lemma range_inside: "0 < k \<Longrightarrow> j < (n + k - 1) div k \<Longrightarrow> j * k < (n::nat)"
proof -
  assume k: "0 < k" and j: "j < (n + k - 1) div k"
  from j have "Suc j \<le> (n + k - 1) div k" by simp
  then have "Suc j * k \<le> ((n + k - 1) div k) * k"
    by (rule mult_le_mono1)
  also have "\<dots> \<le> n + k - 1"
    by simp
  finally show ?thesis using k by simp
qed

lemma concat_slices:
  "concat (map (\<lambda>j. take k (drop (j * k) ws)) [0..<m]) = take (m * k) ws"
proof (induction m)
  case 0
  show ?case by simp
next
  case (Suc m)
  have "take (m * k + k) ws = take (m * k) ws @ take k (drop (m * k) ws)"
    by (rule take_add)
  with Suc show ?case by (simp add: add.commute)
qed

lemma concat_word_slices:
  assumes "0 < k"
  shows "concat (word_slices ws k) = ws"
proof -
  let ?m = "(length ws + k - 1) div k"
  have "word_slices ws k = map (\<lambda>j. take k (drop (j * k) ws)) [0..<?m]"
    by (simp add: word_slices_def range_from_zero_def o_def)
  then have "concat (word_slices ws k) = take (?m * k) ws"
    by (simp only: concat_slices)
  moreover have "length ws \<le> ?m * k"
    using assms by (rule range_cover)
  ultimately show ?thesis by simp
qed

lemma length_word_slices: "length (word_slices ws k) = (length ws + k - 1) div k"
  by (simp add: word_slices_def range_from_zero_def)

lemma word_slices_sizes:
  assumes "0 < k" and "g \<in> set (word_slices ws k)"
  shows "0 < length g \<and> length g \<le> k"
proof -
  from assms(2) obtain j where j: "j < (length ws + k - 1) div k"
    and g: "g = take k (drop (j * k) ws)"
    by (auto simp: word_slices_def range_from_zero_def)
  from range_inside [OF assms(1) j] have "j * k < length ws" .
  with assms(1) g show ?thesis by simp
qed

lemma div_round_up_bounds:
  fixes m :: nat
  shows "700 * (m div 700) \<le> m \<and> m < 700 * (m div 700) + 700"
proof -
  have "m = 700 * (m div 700) + m mod 700"
    by (rule mult_div_mod_eq [symmetric])
  moreover have "m mod 700 < 700"
    by simp
  ultimately show ?thesis by linarith
qed

lemma ceiling_700: "int ((n + 700 - 1) div 700) = \<lceil>real n / 700\<rceil>"
proof -
  define q where "q = (n + 699) div 700"
  from div_round_up_bounds [of "n + 699"]
  have lo: "700 * q \<le> n + 699" and hi: "n \<le> 700 * q"
    by (simp_all add: q_def)
  have "real n \<le> real (700 * q)"
    using hi by (simp only: of_nat_le_iff)
  then have a: "real n / 700 \<le> real_of_int (int q)"
    by simp
  have "real (700 * q) \<le> real (n + 699)"
    using lo by (simp only: of_nat_le_iff)
  then have b: "real_of_int (int q) - 1 < real n / 700"
    by simp
  from b a have "\<lceil>real n / 700\<rceil> = int q"
    by (rule ceiling_unique)
  moreover have "n + 700 - 1 = n + 699"
    by simp
  ultimately show ?thesis by (simp only: q_def)
qed

lemma summarize_chunks_all:
  assumes "\<forall>c \<in> set chunks. \<exists>p rest. s c 120 30 True = Inr (p # rest)"
  shows "\<exists>partials.
     list_all2 (\<lambda>c p. \<exists>rest. s c 120 30 True = Inr (p # rest)) chunks partials \<and>
     summarize_chunks s chunks w =
       (Inr partials, w\<lparr>calls := calls w @ map (\<lambda>c. Summarize c 120 30 True) chunks\<rparr>)"
  using assms
proof (induction chunks arbitrary: w)
  case Nil
  show ?case by simp
next
  case (Cons c cs)
  from Cons.prems obtain p rest where c: "s c 120 30 True = Inr (p # rest)"
    by auto
  let ?w1 = "w\<lparr>calls := calls w @ [Summarize c 120 30 True]\<rparr>"
  from Cons.prems have "\<forall>c \<in> set cs. \<exists>p rest. s c 120 30 True = Inr (p # rest)"
    by simp
  from Cons.IH [OF this, of ?w1] obtain ps where
    ps: "list_all2 (\<lambda>c p. \<exists>rest. s c 120 30 True = Inr (p # rest)) cs ps"
    and run: "summarize_chunks s cs ?w1 =
       (Inr ps, ?w1\<lparr>calls := calls ?w1 @ map (\<lambda>c. Summarize c 120 30 True) cs\<rparr>)"
    by blast
  have "list_all2 (\<lambda>c p. \<exists>rest. s c 120 30 True = Inr (p # rest)) (c # cs) (p # ps)"
    using c ps by simp
  moreover have "summarize_chunks s (c # cs) w =
      (Inr (p # ps), w\<lparr>calls := calls w @ map (\<lambda>c. Summarize c 120 30 True) (c # cs)\<rparr>)"
    using c run by (simp add: top_summary_def)
  ultimately show ?case by blast
qed

lemma top_summary_eq:
  "top_summary s t a b c w =
     (case s t a b c of Inl x \<Rightarrow> Inl x | Inr [] \<Rightarrow> Inl IndexError | Inr (p # _) \<Rightarrow> Inr p,
      w\<lparr>calls := calls w @ [Summarize t a b c]\<rparr>)"
  by (simp add: top_summary_def split: sum.splits list.splits)

lemma str_split_space: "str_split (32 # s) = str_split s"
proof -
  have "dropWhile isspace (32 # s) = dropWhile isspace s"
    by (simp add: isspace_def)
  then show ?thesis
    by (subst str_split.simps, subst (2) str_split.simps) simp
qed

lemma str_split_word: "str_split (ustr ''word '' @ s) = ustr ''word'' # str_split s"
proof -
  have "str_split (ustr ''word '' @ s) = ustr ''word'' # str_split (32 # s)"
    by (subst str_split.simps) (simp add: ustr_def isspace_def)
  then show ?thesis by (simp only: str_split_space)
qed

lemma str_split_Nil: "str_split [] = []"
  by (subst str_split.simps) simp

lemma str_split_words:
  "str_split (concat (replicate n (ustr ''word ''))) = replicate n (ustr ''word'')"
  by (induction n) (simp_all add: str_split_Nil str_split_word)

lemma length_long_text: "length (str_split long_text) = 1500"
  by (simp add: long_text_def str_split_words)

lemma str_split_short_text:
  "str_split (ustr ''The tenant pays rent monthly.'') =
     [ustr ''The'', ustr ''tenant'', ustr ''pays'', ustr ''rent'', ustr ''monthly.'']"
  by (simp add: str_split.simps ustr_def isspace_def)

lemma get_summarizer_example:
  "get_summarizer example_env fresh_world =
     (Inr example_summarizer, fresh_world\<lparr>summarizer_global := Some example_summarizer\<rparr>)"
  by (simp add: get_summarizer_def example_env_def fresh_world_def)

lemma join_space_spaced: "join_space ps = single_spaced ps"
  by (induction ps rule: join_space.induct) simp_all

lemma join_space_fun: "join_space = single_spaced"
  by (rule ext) (rule join_space_spaced)

lemma str_split_unfold:
  "str_split s =
     (if dropWhile isspace s = [] then []
      else takeWhile (\<lambda>c. \<not> isspace c) (dropWhile isspace s) #
           str_split (dropWhile (\<lambda>c. \<not> isspace c) (dropWhile isspace s)))"
  by (subst str_split.simps) (simp only: Let_def)

lemma str_split_word_props:
  "w \<in> set (str_split s) \<Longrightarrow> w \<noteq> [] \<and> (\<forall>c \<in> set w. \<not> isspace c)"
proof (induction s rule: str_split.induct)
  case (1 s)
  define s' where "s' = dropWhile isspace s"
  have eq: "str_split s =
     (if s' = [] then []
      else takeWhile (\<lambda>c. \<not> isspace c) s' # str_split (dropWhile (\<lambda>c. \<not> isspace c) s'))"
    unfolding s'_def by (rule str_split_unfold)
  show ?case
  proof (cases "s' = []")
    case True
    with 1(2) eq show ?thesis by simp
  next
    case False
    with 1(2) eq
    consider "w = takeWhile (\<lambda>c. \<not> isspace c) s'"
      | "w \<in> set (str_split (dropWhile (\<lambda>c. \<not> isspace c) s'))"
      by auto
    then show ?thesis
    proof cases
      case 1
      from False have "\<not> isspace (hd s')"
        unfolding s'_def by (rule hd_dropWhile)
      with False have "takeWhile (\<lambda>c. \<not> isspace c) s' \<noteq> []"
        by (cases s') auto
      moreover have "\<forall>c \<in> set (takeWhile (\<lambda>c. \<not> isspace c) s'). \<not> isspace c"
        by (auto dest: set_takeWhileD)
      ultimately show ?thesis using 1 by simp
    next
      case 2
      with "1.IH" [OF s'_def False] show ?thesis by simp
    qed
  qed
qed

lemma str_split_one:
  assumes "p \<noteq> []" and "\<forall>c \<in> set p. \<not> isspace c"
  shows "str_split p = [p]"
proof -
  from assms have a: "dropWhile isspace p = p"
    by (cases p) auto
  from assms(2) have b: "takeWhile (\<lambda>c. \<not> isspace c) p = p"
    by simp
  from assms(2) have c: "dropWhile (\<lambda>c. \<not> isspace c) p = []"
    by simp
  have "str_split p = p # str_split []"
    using assms(1) by (subst str_split_unfold) (simp only: a b c if_False)
  then show ?thesis by (simp only: str_split_Nil)
qed

lemma str_split_first:
  assumes "p \<noteq> []" and "\<forall>c \<in> set p. \<not> isspace c"
  shows "str_split (p @ 32 # rest) = p # str_split rest"
proof -
  have sp: "isspace 32"
    by (simp add: isspace_def)
  from assms have a: "dropWhile isspace (p @ 32 # rest) = p @ 32 # rest"
    by (cases p) auto
  from assms(2) sp have b: "takeWhile (\<lambda>c. \<not> isspace c) (p @ 32 # rest) = p"
    by simp
  from assms(2) sp have c: "dropWhile (\<lambda>c. \<not> isspace c) (p @ 32 # rest) = 32 # rest"
    by simp
  have ne: "p @ 32 # rest \<noteq> []"
    by simp
  have "str_split (p @ 32 # rest) = p # str_split (32 # rest)"
    by (subst str_split_unfold) (simp only: a b c ne if_False)
  then show ?thesis by (simp only: str_split_space)
qed

lemma str_split_join_space:
  "\<forall>w \<in> set ws. w \<noteq> [] \<and> (\<forall>c \<in> set w. \<not> isspace c) \<Longrightarrow> str_split (join_space ws) = ws"
proof (induction ws rule: join_space.induct)
  case 1
  show ?case by (simp add: str_split_Nil)
next
  case (2 p)
  then show ?case by (simp add: str_split_one)
next
  case (3 p q ps)
  then have "str_split (join_space (q # ps)) = q # ps"
    by simp
  moreover from 3(2) have "str_split (p @ 32 # join_space (q # ps)) =
      p # str_split (join_space (q # ps))"
    by (intro str_split_first) simp_all
  ultimately show ?case by simp
qed

lemma word_slices_subset: "g \<in> set (word_slices ws k) \<Longrightarrow> set g \<subseteq> set ws"
  by (auto simp: word_slices_def dest!: in_set_takeD in_set_dropD)

lemma word_slices_roundtrip:
  assumes "g \<in> set (word_slices (str_split s) k)"
  shows "str_split (join_space g) = g"
proof (rule str_split_join_space, rule ballI)
  fix w assume "w \<in> set g"
  with word_slices_subset [OF assms] have "w \<in> set (str_split s)" by blast
  then show "w \<noteq> [] \<and> (\<forall>c \<in> set w. \<not> isspace c)"
    by (rule str_split_word_props)
qed

lemma word_slices_first:
  assumes "ws \<noteq> []" and "0 < k"
  shows "\<exists>rest. word_slices ws k = take k ws # rest"
proof -
  let ?m = "(length ws + k - 1) div k"
  from assms have "k \<le> length ws + k - 1"
    by (cases ws) simp_all
  with assms(2) have "0 < ?m"
    by (simp add: div_greater_zero_iff)
  then have "[0..<?m] = 0 # [Suc 0..<?m]"
    by (simp add: upt_conv_Cons)
  then show ?thesis
    by (simp add: word_slices_def range_from_zero_def)
qed

lemma summarize_chunks_raising:
  "summarize_chunks raising_summarizer (c # cs) w =
     (Inl (LibraryError ''RuntimeError''), w\<lparr>calls := calls w @ [Summarize c 120 30 True]\<rparr>)"
  by (simp add: top_summary_def raising_summarizer_def)

text \<open>
  Claim C1: for every text below 800 words \<open>summarize_text\<close> issues exactly one call, and
  for every text of 800 words or more it issues \<open>\<lceil>word_count / 700\<rceil>\<close> calls on chunks and
  one last call. As stated this fails when the capability fails: when the model cannot be
  loaded, a text of five words leads to no call at all; and when the model raises on
  every call, the text of 1500 words leads to one call, on the first chunk of 700 words,
  where three calls on chunks and a last one are claimed.
\<close>

theorem summarize_text_fewer_calls:
  "length (str_split (ustr ''The tenant pays rent monthly.'')) < 800 \<and>
   calls (snd (summarize_text unavailable_summarizer_env
                 (ustr ''The tenant pays rent monthly.'') 200 fresh_world)) = [] \<and>
   800 \<le> length (str_split long_text) \<and>
   \<lceil>real (length (str_split long_text)) / 700\<rceil> = 3 \<and>
   calls (snd (summarize_text raising_summarizer_env long_text 200 fresh_world)) =
     [Summarize (single_spaced (replicate 700 (ustr ''word''))) 120 30 True]"
proof -
  have short: "length (str_split (ustr ''The tenant pays rent monthly.'')) < 800"
    by (simp add: str_split_short_text)
  have none: "calls (snd (summarize_text unavailable_summarizer_env
                 (ustr ''The tenant pays rent monthly.'') 200 fresh_world)) = []"
    by (simp add: summarize_text_def get_summarizer_def unavailable_summarizer_env_def
        example_env_def fresh_world_def)
  have long: "800 \<le> length (str_split long_text)"
    by (simp add: length_long_text)
  have three: "\<lceil>real (length (str_split long_text)) / 700\<rceil> = 3"
    by (simp add: length_long_text)
  have words: "str_split long_text = replicate 1500 (ustr ''word'')"
    by (simp add: long_text_def str_split_words)
  have "replicate 1500 (ustr ''word'') \<noteq> []"
    by simp
  from word_slices_first [OF this, of 700] obtain rest where
    "word_slices (replicate 1500 (ustr ''word'')) 700 = replicate 700 (ustr ''word'') # rest"
    by auto
  then have chunks: "chunk_text long_text 700 =
      Inr (join_space (replicate 700 (ustr ''word'')) # map join_space rest)"
    by (simp add: chunk_text_def words)
  have loaded: "get_summarizer raising_summarizer_env fresh_world =
      (Inr raising_summarizer, fresh_world\<lparr>summarizer_global := Some raising_summarizer\<rparr>)"
    by (simp add: get_summarizer_def raising_summarizer_env_def example_env_def fresh_world_def)
  have "\<not> length (str_split long_text) < 800"
    using long by simp
  then have "summarize_text raising_summarizer_env long_text 200 fresh_world =
      (Inl (LibraryError ''RuntimeError''),
       fresh_world\<lparr>summarizer_global := Some raising_summarizer,
         calls := [Summarize (join_space (replicate 700 (ustr ''word''))) 120 30 True]\<rparr>)"
    unfolding summarize_text_def loaded chunks
    by (simp only: prod.case sum.case if_False summarize_chunks_raising)
      (simp add: fresh_world_def)
  then have one: "calls (snd (summarize_text raising_summarizer_env long_text 200 fresh_world)) =
     [Summarize (single_spaced (replicate 700 (ustr ''word''))) 120 30 True]"
    by (simp add: join_space_spaced)
  from short none long three one show ?thesis by blast
qed

text \<open>
  Claim C1, amended: provided \<open>get_summarizer\<close> yields the summarizer, for every text
  below 800 words \<open>summarize_text\<close> issues exactly one call, with \<open>max_length\<close>,
  \<open>min_length = 30\<close> and truncation; for every text of 800 words or more the words are cut
  into consecutive groups of at most 700, in order, every chunk is the words of its group
  with single spaces between them (splitting a chunk gives back its group), there are
  \<open>\<lceil>word_count / 700\<rceil>\<close> chunks and, provided every call on a chunk returns a candidate,
  one call per chunk is issued with \<open>max_length = 120\<close>, \<open>min_length = 30\<close> and truncation,
  the partial summaries are written in chunk order with single spaces between them, and
  one last call is issued on that text with \<open>max_length\<close>, \<open>min_length = 50\<close> and
  truncation. The result is the first candidate of the last call.
\<close>

theorem summarize_text_calls:
  assumes "get_summarizer e w = (Inr s, w1)"
  shows "(length (str_split text) < 800 \<longrightarrow>
      summarize_text e text max_length w =
        (case s text max_length 30 True of
           Inl x \<Rightarrow> Inl x | Inr [] \<Rightarrow> Inl IndexError | Inr (p # _) \<Rightarrow> Inr p,
         w1\<lparr>calls := calls w1 @ [Summarize text max_length 30 True]\<rparr>)) \<and>
    (800 \<le> length (str_split text) \<longrightarrow>
      (\<exists>groups.
         chunk_text text 700 = Inr (map single_spaced groups) \<and>
         concat groups = str_split text \<and>
         (\<forall>g \<in> set groups.
            0 < length g \<and> length g \<le> 700 \<and> str_split (single_spaced g) = g) \<and>
         int (length groups) = \<lceil>real (length (str_split text)) / 700\<rceil> \<and>
         ((\<forall>c \<in> set (map single_spaced groups).
             \<exists>p rest. s c 120 30 True = Inr (p # rest)) \<longrightarrow>
          (\<exists>partials.
             list_all2 (\<lambda>c p. \<exists>rest. s c 120 30 True = Inr (p # rest))
               (map single_spaced groups) partials \<and>
             summarize_text e text max_length w =
               (case s (single_spaced partials) max_length 50 True of
                  Inl x \<Rightarrow> Inl x | Inr [] \<Rightarrow> Inl IndexError | Inr (p # _) \<Rightarrow> Inr p,
                w1\<lparr>calls := calls w1 @
                     map (\<lambda>c. Summarize c 120 30 True) (map single_spaced groups) @
                     [Summarize (single_spaced partials) max_length 50 True]\<rparr>)))))"
proof (intro conjI impI)
  assume "length (str_split text) < 800"
  with assms show "summarize_text e text max_length w =
        (case s text max_length 30 True of
           Inl x \<Rightarrow> Inl x | Inr [] \<Rightarrow> Inl IndexError | Inr (p # _) \<Rightarrow> Inr p,
         w1\<lparr>calls := calls w1 @ [Summarize text max_length 30 True]\<rparr>)"
    by (simp add: summarize_text_def top_summary_eq)
next
  assume long: "800 \<le> length (str_split text)"
  let ?groups = "word_slices (str_split text) 700"
  have chunks: "chunk_text text 700 = Inr (map join_space ?groups)"
    by (simp add: chunk_text_def)
  have cover: "concat ?groups = str_split text"
    by (simp add: concat_word_slices)
  have sizes: "0 < length g \<and> length g \<le> 700 \<and> str_split (join_space g) = g"
    if "g \<in> set ?groups" for g
    using that word_slices_sizes [of 700 g "str_split text"]
      word_slices_roundtrip [of g "text" 700] by simp
  have count: "int (length ?groups) = \<lceil>real (length (str_split text)) / 700\<rceil>"
    using ceiling_700 [of "length (str_split text)"] by (simp add: length_word_slices)
  have calls: "\<exists>partials.
             list_all2 (\<lambda>c p. \<exists>rest. s c 120 30 True = Inr (p # rest))
               (map join_space ?groups) partials \<and>
             summarize_text e text max_length w =
               (case s (join_space partials) max_length 50 True of
                  Inl x \<Rightarrow> Inl x | Inr [] \<Rightarrow> Inl IndexError | Inr (p # _) \<Rightarrow> Inr p,
                w1\<lparr>calls := calls w1 @
                     map (\<lambda>c. Summarize c 120 30 True) (map join_space ?groups) @
                     [Summarize (join_space partials) max_length 50 True]\<rparr>)"
    if ok: "\<forall>c \<in> set (map join_space ?groups). \<exists>p rest. s c 120 30 True = Inr (p # rest)"
  proof -
    from ok summarize_chunks_all [of "map join_space ?groups" s w1] obtain partials where
      rel: "list_all2 (\<lambda>c p. \<exists>rest. s c 120 30 True = Inr (p # rest))
               (map join_space ?groups) partials"
      and run: "summarize_chunks s (map join_space ?groups) w1 =
         (Inr partials,
          w1\<lparr>calls := calls w1 @ map (\<lambda>c. Summarize c 120 30 True) (map join_space ?groups)\<rparr>)"
      by blast
    have "summarize_text e text max_length w =
               (case s (join_space partials) max_length 50 True of
                  Inl x \<Rightarrow> Inl x | Inr [] \<Rightarrow> Inl IndexError | Inr (p # _) \<Rightarrow> Inr p,
                w1\<lparr>calls := calls w1 @
                     map (\<lambda>c. Summarize c 120 30 True) (map join_space ?groups) @
                     [Summarize (join_space partials) max_length 50 True]\<rparr>)"
    proof -
      have "\<not> length (str_split text) < 800"
        using long by simp
      then have "summarize_text e text max_length w =
          top_summary s (join_space partials) max_length 50 True
            (w1\<lparr>calls := calls w1 @
                 map (\<lambda>c. Summarize c 120 30 True) (map join_space ?groups)\<rparr>)"
        unfolding summarize_text_def assms chunks by (simp only: prod.case sum.case if_False run)
      then show ?thesis
        by (simp add: top_summary_eq)
    qed
    with rel show ?thesis by blast
  qed
  show "\<exists>groups.
         chunk_text text 700 = Inr (map single_spaced groups) \<and>
         concat groups = str_split text \<and>
         (\<forall>g \<in> set groups.
            0 < length g \<and> length g \<le> 700 \<and> str_split (single_spaced g) = g) \<and>
         int (length groups) = \<lceil>real (length (str_split text)) / 700\<rceil> \<and>
         ((\<forall>c \<in> set (map single_spaced groups).
             \<exists>p rest. s c 120 30 True = Inr (p # rest)) \<longrightarrow>
          (\<exists>partials.
             list_all2 (\<lambda>c p. \<exists>rest. s c 120 30 True = Inr (p # rest))
               (map single_spaced groups) partials \<and>
             summarize_text e text max_length w =
               (case s (single_spaced partials) max_length 50 True of
                  Inl x \<Rightarrow> Inl x | Inr [] \<Rightarrow> Inl IndexError | Inr (p # _) \<Rightarrow> Inr p,
                w1\<lparr>calls := calls w1 @
                     map (\<lambda>c. Summarize c 120 30 True) (map single_spaced groups) @
                     [Summarize (single_spaced partials) max_length 50 True]\<rparr>)))"
  proof (intro exI [of _ ?groups] conjI impI ballI)
    show "chunk_text text 700 = Inr (map single_spaced ?groups)"
      by (rule chunks [unfolded join_space_fun])
    show "concat ?groups = str_split text"
      by (rule cover)
    show "int (length ?groups) = \<lceil>real (length (str_split text)) / 700\<rceil>"
      by (rule count)
  next
    fix g assume g: "g \<in> set ?groups"
    from sizes [OF g] show "0 < length g" by simp
    from sizes [OF g] show "length g \<le> 700" by simp
    from sizes [OF g] show "str_split (single_spaced g) = g"
      by (simp only: join_space_spaced)
  next
    assume "\<forall>c \<in> set (map single_spaced ?groups). \<exists>p rest. s c 120 30 True = Inr (p # rest)"
    then show "\<exists>partials.
             list_all2 (\<lambda>c p. \<exists>rest. s c 120 30 True = Inr (p # rest))
               (map single_spaced ?groups) partials \<and>
             summarize_text e text max_length w =
               (case s (single_spaced partials) max_length 50 True of
                  Inl x \<Rightarrow> Inl x | Inr [] \<Rightarrow> Inl IndexError | Inr (p # _) \<Rightarrow> Inr p,
                w1\<lparr>calls := calls w1 @
                     map (\<lambda>c. Summarize c 120 30 True) (map single_spaced ?groups) @
                     [Summarize (single_spaced partials) max_length 50 True]\<rparr>)"
      by (rule calls [unfolded join_space_fun])
  qed
qed

theorem summarize_text_calls_witness:
  "length (str_split (ustr ''The tenant pays rent monthly.'')) < 800 \<and>
   calls (snd (summarize_text example_env (ustr ''The tenant pays rent monthly.'') 200
                 fresh_world)) =
     [Summarize (ustr ''The tenant pays rent monthly.'') 200 30 True] \<and>
   800 \<le> length (str_split long_text) \<and>
   (\<exists>groups partials.
      chunk_text long_text 700 = Inr (map single_spaced groups) \<and>
      concat groups = replicate 1500 (ustr ''word'') \<and>
      (\<forall>g \<in> set groups. str_split (single_spaced g) = g) \<and>
      length groups = 3 \<and>
      calls (snd (summarize_text example_env long_text 200 fresh_world)) =
        map (\<lambda>c. Summarize c 120 30 True) (map single_spaced groups) @
        [Summarize (single_spaced partials) 200 50 True])"
proof -
  let ?short = "ustr ''The tenant pays rent monthly.''"
  note inst = summarize_text_calls [OF get_summarizer_example]
  have short: "length (str_split ?short) < 800"
    by (simp add: str_split_short_text)
  with inst [of ?short 200]
  have one: "calls (snd (summarize_text example_env ?short 200 fresh_world)) =
      [Summarize ?short 200 30 True]"
    by (simp add: fresh_world_def)
  have long: "800 \<le> length (str_split long_text)"
    by (simp add: length_long_text)
  with inst [of long_text 200] obtain groups where
    chunks: "chunk_text long_text 700 = Inr (map single_spaced groups)"
    and cover: "concat groups = str_split long_text"
    and trip: "\<forall>g \<in> set groups.
        0 < length g \<and> length g \<le> 700 \<and> str_split (single_spaced g) = g"
    and count: "int (length groups) = \<lceil>real (length (str_split long_text)) / 700\<rceil>"
    and run: "(\<forall>c \<in> set (map single_spaced groups).
          \<exists>p rest. example_summarizer c 120 30 True = Inr (p # rest)) \<longrightarrow>
       (\<exists>partials.
          list_all2 (\<lambda>c p. \<exists>rest. example_summarizer c 120 30 True = Inr (p # rest))
            (map single_spaced groups) partials \<and>
          summarize_text example_env long_text 200 fresh_world =
            (case example_summarizer (single_spaced partials) 200 50 True of
               Inl x \<Rightarrow> Inl x | Inr [] \<Rightarrow> Inl IndexError | Inr (p # _) \<Rightarrow> Inr p,
             fresh_world\<lparr>summarizer_global := Some example_summarizer\<rparr>
               \<lparr>calls := calls (fresh_world\<lparr>summarizer_global := Some example_summarizer\<rparr>) @
                  map (\<lambda>c. Summarize c 120 30 True) (map single_spaced groups) @
                  [Summarize (single_spaced partials) 200 50 True]\<rparr>))"
    by blast
  have "\<forall>c \<in> set (map single_spaced groups).
      \<exists>p rest. example_summarizer c 120 30 True = Inr (p # rest)"
    by (simp add: example_summarizer_def)
  with run obtain partials where
    "summarize_text example_env long_text 200 fresh_world =
            (case example_summarizer (single_spaced partials) 200 50 True of
               Inl x \<Rightarrow> Inl x | Inr [] \<Rightarrow> Inl IndexError | Inr (p # _) \<Rightarrow> Inr p,
             fresh_world\<lparr>summarizer_global := Some example_summarizer\<rparr>
               \<lparr>calls := calls (fresh_world\<lparr>summarizer_global := Some example_summarizer\<rparr>) @
                  map (\<lambda>c. Summarize c 120 30 True) (map single_spaced groups) @
                  [Summarize (single_spaced partials) 200 50 True]\<rparr>)"
    by blast
  then have many: "calls (snd (summarize_text example_env long_text 200 fresh_world)) =
        map (\<lambda>c. Summarize c 120 30 True) (map single_spaced groups) @
        [Summarize (single_spaced partials) 200 50 True]"
    by (simp add: fresh_world_def)
  have three: "length groups = 3"
    using count by (simp add: length_long_text)
  have words: "concat groups = replicate 1500 (ustr ''word'')"
    using cover by (simp add: long_text_def str_split_words)
  from trip have again: "\<forall>g \<in> set groups. str_split (single_spaced g) = g"
    by blast
  from short one long chunks words again three many show ?thesis by blast
qed

end
